theory Spec2Isabelle
  imports Main
begin

section \<open>Python strings\<close>

text \<open>
  A Python \<open>str\<close> is a sequence of code points. It is modelled as a \<open>string\<close> whose
  characters are the code points 0 to 255 (Latin-1), one \<open>char\<close> per code point, so that
  \<open>length\<close> counts what \<open>len\<close> counts. Code points above 255 are outside the model.
  The character tables below are those of CPython on that range.
\<close>

definition isspace :: "char \<Rightarrow> bool" where
  \<comment> \<open>\<open>str.isspace\<close> on one character; also the class \<open>\s\<close> of \<open>re\<close> on \<open>str\<close> patterns.\<close>
  "isspace c =
     (let n = (of_char c :: nat)
      in (9 \<le> n \<and> n \<le> 13) \<or> (28 \<le> n \<and> n \<le> 32) \<or> n = 133 \<or> n = 160)"

definition isword :: "char \<Rightarrow> bool" where
  \<comment> \<open>The class \<open>\w\<close> of \<open>re\<close> on \<open>str\<close> patterns: alphanumeric or underscore.\<close>
  "isword c =
     (let n = (of_char c :: nat)
      in (48 \<le> n \<and> n \<le> 57) \<or> (65 \<le> n \<and> n \<le> 90) \<or> n = 95 \<or> (97 \<le> n \<and> n \<le> 122)
         \<or> n = 170 \<or> n = 178 \<or> n = 179 \<or> n = 181 \<or> n = 185 \<or> n = 186
         \<or> (188 \<le> n \<and> n \<le> 190) \<or> (192 \<le> n \<and> n \<le> 214) \<or> (216 \<le> n \<and> n \<le> 246)
         \<or> 248 \<le> n)"

definition lower_char :: "char \<Rightarrow> char" where
  "lower_char c =
     (let n = (of_char c :: nat)
      in if (65 \<le> n \<and> n \<le> 90) \<or> (192 \<le> n \<and> n \<le> 222 \<and> n \<noteq> 215)
         then char_of (n + 32) else c)"

definition lower :: "string \<Rightarrow> string" where
  \<comment> \<open>\<open>str.lower()\<close>\<close>
  "lower s = map lower_char s"

definition strip :: "string \<Rightarrow> string" where
  \<comment> \<open>\<open>str.strip()\<close> with no argument: whitespace removed at both ends.\<close>
  "strip s = rev (dropWhile isspace (rev (dropWhile isspace s)))"

definition startswith :: "string \<Rightarrow> string \<Rightarrow> bool" where
  \<comment> \<open>\<open>s.startswith(p)\<close>\<close>
  "startswith s p = (take (length p) s = p)"

section \<open>The regular expressions of the rule table\<close>

text \<open>
  The syntax trees of the patterns that \<open>re.compile\<close> builds, for the constructs the
  rule table uses: literal text, \<open>^\<close>, \<open>\b\<close>, the greedy repetitions \<open>\s+\<close> and \<open>.+\<close>,
  concatenation, alternation and capturing groups (numbered from 0 here, from 1 in
  Python).
\<close>

datatype cclass = Space | Dot

datatype regex =
    Lit string
  | Bol
  | WordB
  | Plus cclass
  | Seq regex regex
  | Alt regex regex
  | Group nat regex

fun in_class :: "cclass \<Rightarrow> char \<Rightarrow> bool" where
  "in_class Space c = isspace c"
| "in_class Dot c = (c \<noteq> CHR 0x0A)"

primrec ngroups :: "regex \<Rightarrow> nat" where
  "ngroups (Lit cs) = 0"
| "ngroups Bol = 0"
| "ngroups WordB = 0"
| "ngroups (Plus c) = 0"
| "ngroups (Seq a b) = ngroups a + ngroups b"
| "ngroups (Alt a b) = ngroups a + ngroups b"
| "ngroups (Group i r) = Suc (ngroups r)"

text \<open>
  The state of a match attempt: the character before the current position (none at the
  start of the text), the text from the current position on, and the groups captured so
  far (\<open>None\<close> for a group that has not taken part).
\<close>

record mstate =
  prev :: "char option"
  rest :: string
  caps :: "string option list"

fun lit_match :: "bool \<Rightarrow> string \<Rightarrow> char option \<Rightarrow> string \<Rightarrow> (char option \<times> string) option" where
  "lit_match ic [] p s = Some (p, s)"
| "lit_match ic (c # cs) p [] = None"
| "lit_match ic (c # cs) p (x # xs) =
     (if (if ic then lower_char x = lower_char c else x = c)
      then lit_match ic cs (Some x) xs else None)"

definition at_boundary :: "char option \<Rightarrow> string \<Rightarrow> bool" where
  \<comment> \<open>\<open>\b\<close>: exactly one of the characters before and after the position is a word character.\<close>
  "at_boundary p s =
     ((case p of None \<Rightarrow> False | Some c \<Rightarrow> isword c)
       \<noteq> (case s of [] \<Rightarrow> False | c # _ \<Rightarrow> isword c))"

fun plus_greedy :: "(char \<Rightarrow> bool) \<Rightarrow> char option \<Rightarrow> string
    \<Rightarrow> (char option \<Rightarrow> string \<Rightarrow> 'a option) \<Rightarrow> 'a option" where
  "plus_greedy P p [] k = None"
| "plus_greedy P p (x # xs) k =
     (if P x
      then (case plus_greedy P (Some x) xs k of Some r \<Rightarrow> Some r | None \<Rightarrow> k (Some x) xs)
      else None)"

text \<open>
  The backtracking matcher, with the rest of the pattern as a continuation: the first
  way of matching for which the continuation succeeds is the result, alternatives are
  tried from left to right, and a repetition gives up one character at a time. The flag
  is \<open>re.IGNORECASE\<close>.
\<close>

primrec rmatch :: "bool \<Rightarrow> regex \<Rightarrow> mstate \<Rightarrow> (mstate \<Rightarrow> 'a option) \<Rightarrow> 'a option" where
  "rmatch ic (Lit cs) st k =
     (case lit_match ic cs (prev st) (rest st) of
        None \<Rightarrow> None
      | Some (p, r) \<Rightarrow> k (st\<lparr>prev := p, rest := r\<rparr>))"
| "rmatch ic Bol st k = (if prev st = None then k st else None)"
| "rmatch ic WordB st k = (if at_boundary (prev st) (rest st) then k st else None)"
| "rmatch ic (Plus c) st k =
     plus_greedy (in_class c) (prev st) (rest st) (\<lambda>p r. k (st\<lparr>prev := p, rest := r\<rparr>))"
| "rmatch ic (Seq a b) st k = rmatch ic a st (\<lambda>st'. rmatch ic b st' k)"
| "rmatch ic (Alt a b) st k =
     (case rmatch ic a st k of Some r \<Rightarrow> Some r | None \<Rightarrow> rmatch ic b st k)"
| "rmatch ic (Group i r) st k =
     rmatch ic r st
       (\<lambda>st'. k (st'\<lparr>caps := (caps st')
                  [i := Some (take (length (rest st) - length (rest st')) (rest st))]\<rparr>))"

text \<open>A compiled pattern: the syntax tree and the \<open>re.IGNORECASE\<close> flag.\<close>

record pattern =
  tree :: regex
  ignorecase :: bool

definition re_compile :: "regex \<Rightarrow> bool \<Rightarrow> pattern" where
  "re_compile r flag = \<lparr>tree = r, ignorecase = flag\<rparr>"

text \<open>
  \<open>pattern.search(text)\<close> tries every start position from left to right and returns the
  first match; the result here is \<open>match.groups()\<close> of that match, \<open>None\<close> when there is
  none.
\<close>

fun search_from :: "pattern \<Rightarrow> char option \<Rightarrow> string \<Rightarrow> string option list option" where
  "search_from pat p [] =
     rmatch (ignorecase pat) (tree pat)
       \<lparr>prev = p, rest = [], caps = replicate (ngroups (tree pat)) None\<rparr>
       (\<lambda>st. Some (caps st))"
| "search_from pat p (x # xs) =
     (case rmatch (ignorecase pat) (tree pat)
             \<lparr>prev = p, rest = x # xs, caps = replicate (ngroups (tree pat)) None\<rparr>
             (\<lambda>st. Some (caps st)) of
        Some g \<Rightarrow> Some g
      | None \<Rightarrow> search_from pat (Some x) xs)"

definition re_search :: "pattern \<Rightarrow> string \<Rightarrow> string option list option" where
  "re_search pat text = search_from pat None text"

section \<open>\<open>SmartCommandProcessor\<close> (jarvis.py)\<close>

text \<open>Literal words separated by \<open>\s+\<close>, and an alternation of several branches.\<close>

fun phrase :: "string list \<Rightarrow> regex" where
  "phrase [] = Lit []"
| "phrase [w] = Lit w"
| "phrase (w # v # ws) = Seq (Lit w) (Seq (Plus Space) (phrase (v # ws)))"

fun alts :: "regex list \<Rightarrow> regex" where
  "alts [] = Lit []"
| "alts [r] = r"
| "alts (r # s # rs) = Alt r (alts (s # rs))"

definition keyword :: "string list list \<Rightarrow> regex" where
  \<comment> \<open>\<open>\b(p1|p2|...)\b\<close>\<close>
  "keyword ps = Seq WordB (Seq (Group 0 (alts (map phrase ps))) WordB)"

definition bare_word :: "string \<Rightarrow> regex" where
  \<comment> \<open>\<open>\bw\b\<close>\<close>
  "bare_word w = Seq WordB (Seq (Lit w) WordB)"

definition lead2 :: "string list list \<Rightarrow> regex" where
  \<comment> \<open>\<open>^(p1|p2|...)\s+(.+)\<close>\<close>
  "lead2 ps = Seq Bol (Seq (Group 0 (alts (map phrase ps))) (Seq (Plus Space) (Group 1 (Plus Dot))))"

definition lead1 :: "string list \<Rightarrow> regex" where
  \<comment> \<open>\<open>^p\s+(.+)\<close>\<close>
  "lead1 p = Seq Bol (Seq (phrase p) (Seq (Plus Space) (Group 0 (Plus Dot))))"

record processor =
  command_patterns :: "(string \<times> regex list) list"
  compiled_patterns :: "(string \<times> pattern list) list"

text \<open>
  The table of \<open>__init__\<close>, in the order of the dictionary literal:
  \<^verbatim>\<open>
  'time':         \b(what\s+time|current\s+time|time\s+is|tell\s+me\s+the\s+time)\b
                  \btime\b
  'date':         \b(what\s+date|current\s+date|date\s+is|today\s+is)\b
                  \bdate\b
  'weather':      \b(weather|temperature|forecast|climate)\b
  'search':       ^(search\s+for|look\s+up|find\s+information\s+about|tell\s+me\s+about)\s+(.+)
                  ^(what\s+is|who\s+is|where\s+is|when\s+is|how\s+is)\s+(.+)
                  ^(define|explain|describe)\s+(.+)
  'open_website': ^open\s+(.+)
                  ^go\s+to\s+(.+)
                  ^navigate\s+to\s+(.+)
  'greeting':     \b(hello|hi|hey|greetings|good\s+morning|good\s+afternoon|good\s+evening)\b
  'thanks':       \b(thank\s+you|thanks|appreciate|grateful)\b
  'status':       \b(how\s+are\s+you|status|condition|state)\b
  'clear':        \b(clear\s+screen|clear\s+display|clean\s+screen)\b
  \<close>
\<close>

definition the_command_patterns :: "(string \<times> regex list) list" where
  "the_command_patterns =
   [(''time'',
      [keyword [[''what'', ''time''], [''current'', ''time''], [''time'', ''is''],
                [''tell'', ''me'', ''the'', ''time'']],
       bare_word ''time'']),
    (''date'',
      [keyword [[''what'', ''date''], [''current'', ''date''], [''date'', ''is''],
                [''today'', ''is'']],
       bare_word ''date'']),
    (''weather'',
      [keyword [[''weather''], [''temperature''], [''forecast''], [''climate'']]]),
    (''search'',
      [lead2 [[''search'', ''for''], [''look'', ''up''], [''find'', ''information'', ''about''],
              [''tell'', ''me'', ''about'']],
       lead2 [[''what'', ''is''], [''who'', ''is''], [''where'', ''is''], [''when'', ''is''],
              [''how'', ''is'']],
       lead2 [[''define''], [''explain''], [''describe'']]]),
    (''open_website'',
      [lead1 [''open''], lead1 [''go'', ''to''], lead1 [''navigate'', ''to'']]),
    (''greeting'',
      [keyword [[''hello''], [''hi''], [''hey''], [''greetings''], [''good'', ''morning''],
                [''good'', ''afternoon''], [''good'', ''evening'']]]),
    (''thanks'',
      [keyword [[''thank'', ''you''], [''thanks''], [''appreciate''], [''grateful'']]]),
    (''status'',
      [keyword [[''how'', ''are'', ''you''], [''status''], [''condition''], [''state'']]]),
    (''clear'',
      [keyword [[''clear'', ''screen''], [''clear'', ''display''], [''clean'', ''screen'']]])]"

definition SmartCommandProcessor :: processor where
  \<comment> \<open>\<open>__init__\<close>: every pattern is compiled with \<open>re.IGNORECASE\<close>, in the order of the table.\<close>
  "SmartCommandProcessor =
     \<lparr>command_patterns = the_command_patterns,
      compiled_patterns =
        map (\<lambda>(command, patterns). (command, map (\<lambda>p. re_compile p True) patterns))
          the_command_patterns\<rparr>"

text \<open>
  The second component of the result of \<open>classify_command\<close>: \<open>None\<close>, the text, or the
  tuple \<open>match.groups()\<close>, whose elements are strings or \<open>None\<close>.
\<close>

datatype payload = PNone | PStr string | PTuple "string option list"

fun first_pattern :: "pattern list \<Rightarrow> string \<Rightarrow> payload option" where
  \<comment> \<open>the inner loop: \<open>for pattern in patterns\<close>\<close>
  "first_pattern [] text = None"
| "first_pattern (pat # pats) text =
     (case re_search pat text of
        Some groups \<Rightarrow> Some (if groups \<noteq> [] then PTuple groups else PNone)
      | None \<Rightarrow> first_pattern pats text)"

fun first_command :: "(string \<times> pattern list) list \<Rightarrow> string \<Rightarrow> (string \<times> payload) option" where
  \<comment> \<open>the outer loop: \<open>for command, patterns in self.compiled_patterns.items()\<close>\<close>
  "first_command [] text = None"
| "first_command ((command, patterns) # others) text =
     (case first_pattern patterns text of
        Some groups \<Rightarrow> Some (command, groups)
      | None \<Rightarrow> first_command others text)"

definition classify_command :: "processor \<Rightarrow> string \<Rightarrow> string \<times> payload" where
  "classify_command self text0 =
     (let text = lower (strip text0)
      in case first_command (compiled_patterns self) text of
           Some result \<Rightarrow> result
         | None \<Rightarrow> (''general'', PStr text))"

datatype error = AttributeError | IndexError

definition prefixes :: "string list" where
  "prefixes =
     [''search for'', ''look up'', ''find information about'', ''tell me about'',
      ''what is'', ''who is'', ''where is'', ''when is'', ''how is'',
      ''define'', ''explain'', ''describe'']"

fun remove_prefix :: "string list \<Rightarrow> string \<Rightarrow> string" where
  \<comment> \<open>the loop \<open>for prefix in prefixes\<close>, and the final \<open>return text\<close>\<close>
  "remove_prefix [] text = text"
| "remove_prefix (prefix # others) text =
     (if startswith (lower text) prefix then strip (drop (length prefix) text)
      else remove_prefix others text)"

fun extract_search_query :: "string \<Rightarrow> payload \<Rightarrow> error + string" where
  \<comment> \<open>\<open>groups[-1].strip()\<close> raises AttributeError when the last group is \<open>None\<close>; on a
      string, \<open>groups[-1]\<close> is its last character.\<close>
  "extract_search_query text (PTuple groups) =
     (if groups \<noteq> [] \<and> length groups > 0
      then (case last groups of None \<Rightarrow> Inl AttributeError | Some g \<Rightarrow> Inr (strip g))
      else Inr (remove_prefix prefixes text))"
| "extract_search_query text (PStr groups) =
     (if groups \<noteq> [] \<and> length groups > 0 then Inr (strip [last groups])
      else Inr (remove_prefix prefixes text))"
| "extract_search_query text PNone = Inr (remove_prefix prefixes text)"

section \<open>The dispatcher \<open>process_command\<close> (jarvis.py)\<close>

text \<open>
  The handlers write to the window and start threads; the model keeps which handler
  \<open>process_command\<close> calls and with which argument. \<open>No_call\<close> is the \<open>open_website\<close>
  branch with a false \<open>extracted_data\<close>, where no handler is called.
\<close>

datatype handler_call =
    Handle_time_command
  | Handle_date_command
  | Handle_weather_command string
  | Handle_search_command string
  | Handle_open_website "string option"
  | No_call
  | Handle_greeting
  | Handle_thanks
  | Handle_status_query
  | Handle_clear_screen
  | Handle_general_query string

fun truthy :: "payload \<Rightarrow> bool" where
  \<comment> \<open>the truth value of \<open>None\<close>, of a string and of a tuple\<close>
  "truthy PNone = False"
| "truthy (PStr s) = (s \<noteq> [])"
| "truthy (PTuple g) = (g \<noteq> [])"

fun open_site :: "payload \<Rightarrow> error + string option" where
  \<comment> \<open>\<open>extracted_data[0] if isinstance(extracted_data, tuple) else extracted_data\<close>\<close>
  "open_site (PTuple []) = Inl IndexError"
| "open_site (PTuple (g # gs)) = Inr g"
| "open_site (PStr s) = Inr (Some s)"
| "open_site PNone = Inr None"

definition process_command :: "processor \<Rightarrow> string \<Rightarrow> error + handler_call" where
  "process_command command_processor command =
     (let (command_type, extracted_data) = classify_command command_processor command
      in if command_type = ''time'' then Inr Handle_time_command
         else if command_type = ''date'' then Inr Handle_date_command
         else if command_type = ''weather'' then Inr (Handle_weather_command command)
         else if command_type = ''search'' then
           (case extract_search_query command extracted_data of
              Inl e \<Rightarrow> Inl e
            | Inr query \<Rightarrow> Inr (Handle_search_command query))
         else if command_type = ''open_website'' then
           (if truthy extracted_data
            then (case open_site extracted_data of
                    Inl e \<Rightarrow> Inl e
                  | Inr site \<Rightarrow> Inr (Handle_open_website site))
            else Inr No_call)
         else if command_type = ''greeting'' then Inr Handle_greeting
         else if command_type = ''thanks'' then Inr Handle_thanks
         else if command_type = ''status'' then Inr Handle_status_query
         else if command_type = ''clear'' then Inr Handle_clear_screen
         else Inr (Handle_general_query command))"

section \<open>\<open>process_command\<close> of the other variant (jarvis12)\<close>

fun contains :: "string \<Rightarrow> string \<Rightarrow> bool" where
  \<comment> \<open>\<open>sub in s\<close>\<close>
  "contains sub [] = (sub = [])"
| "contains sub (c # cs) = (startswith (c # cs) sub \<or> contains sub cs)"

function replace_nonempty :: "string \<Rightarrow> string \<Rightarrow> string \<Rightarrow> string" where
  "replace_nonempty old new s =
     (if old = [] \<or> s = [] then s
      else if startswith s old then new @ replace_nonempty old new (drop (length old) s)
      else hd s # replace_nonempty old new (tl s))"
  by pat_completeness auto
termination
  by (relation "measure (\<lambda>(old, new, s). length s)") auto

definition replace :: "string \<Rightarrow> string \<Rightarrow> string \<Rightarrow> string" where
  \<comment> \<open>\<open>s.replace(old, new)\<close>: every occurrence, from the left, without overlap; an empty
      \<open>old\<close> matches before every character and at the end.\<close>
  "replace old new s =
     (if old = [] then new @ concat (map (\<lambda>c. c # new) s) else replace_nonempty old new s)"

text \<open>
  The branches of the keyword scan, in the order of the source, named by what each one
  answers; the argument is the query or the site where the branch computes one. The
  last two are the two arms of the final \<open>if\<close>, on whether the chat model is available.
\<close>

datatype response12 =
    Say_time
  | Say_date
  | Clear_display
  | Say_greeting
  | Say_thanks
  | Say_status
  | Web_search string
  | Open_site string
  | Weather_search
  | News_search
  | Ask_model string
  | Default_response

definition process_command12 :: "bool \<Rightarrow> string \<Rightarrow> response12" where
  "process_command12 ollama_ready command =
     (let cmd = strip (lower command)
      in if cmd \<in> set [''time'', ''what time'', ''what's the time''] then Say_time
         else if cmd \<in> set [''date'', ''what date'', ''what's the date''] then Say_date
         else if contains ''clear'' cmd \<and> contains ''screen'' cmd then Clear_display
         else if list_ex (\<lambda>word. contains word cmd) [''hello'', ''hi'', ''hey'', ''greetings'']
           then Say_greeting
         else if list_ex (\<lambda>word. contains word cmd) [''thank'', ''thanks'', ''appreciate'']
           then Say_thanks
         else if list_ex (\<lambda>word. contains word cmd) [''how are you'', ''how do you do'']
           then Say_status
         else if startswith cmd ''search for '' \<or> startswith cmd ''look up ''
           then Web_search (replace ''look up '' [] (replace ''search for '' [] cmd))
         else if startswith cmd ''open '' then Open_site (replace ''open '' [] cmd)
         else if contains ''weather'' cmd then Weather_search
         else if contains ''news'' cmd then News_search
         else if ollama_ready then Ask_model command
         else Default_response)"

fun intent12 :: "response12 \<Rightarrow> string" where
  \<comment> \<open>the intent of jarvis.py that a branch of the keyword scan answers\<close>
  "intent12 Say_time = ''time''"
| "intent12 Say_date = ''date''"
| "intent12 Clear_display = ''clear''"
| "intent12 Say_greeting = ''greeting''"
| "intent12 Say_thanks = ''thanks''"
| "intent12 Say_status = ''status''"
| "intent12 (Web_search q) = ''search''"
| "intent12 (Open_site s) = ''open_website''"
| "intent12 Weather_search = ''weather''"
| "intent12 News_search = ''news''"
| "intent12 (Ask_model c) = ''general''"
| "intent12 Default_response = ''general''"

section \<open>Groups that take part in every match\<close>

text \<open>
  The groups that every match of a pattern sets: those of both parts of a concatenation,
  those common to the branches of an alternation, and a group itself. \<open>match.groups()\<close>
  has \<open>None\<close> for a group only if the group is not among them.
\<close>

primrec sure_groups :: "regex \<Rightarrow> nat set" where
  "sure_groups (Lit cs) = {}"
| "sure_groups Bol = {}"
| "sure_groups WordB = {}"
| "sure_groups (Plus c) = {}"
| "sure_groups (Seq a b) = sure_groups a \<union> sure_groups b"
| "sure_groups (Alt a b) = sure_groups a \<inter> sure_groups b"
| "sure_groups (Group i r) = insert i (sure_groups r)"

section \<open>Normalisation of the utterance\<close>

lemma isspace_lower_char: "isspace (lower_char c) = isspace c"
  by (auto simp: isspace_def lower_char_def Let_def)

lemma lower_char_idem: "lower_char (lower_char c) = lower_char c"
  by (auto simp: lower_char_def Let_def)

lemma last_dropWhile_nonempty: "dropWhile P xs \<noteq> [] \<Longrightarrow> last (dropWhile P xs) = last xs"
  by (induction xs) (auto split: if_splits)

lemma strip_ends: "strip s = [] \<or> (\<not> isspace (hd (strip s)) \<and> \<not> isspace (last (strip s)))"
proof (cases "strip s = []")
  case True then show ?thesis by simp
next
  case False
  define ys where "ys = dropWhile isspace s"
  define zs where "zs = dropWhile isspace (rev ys)"
  have s: "strip s = rev zs" by (simp add: strip_def ys_def zs_def)
  with False have nz: "zs \<noteq> []" by simp
  then have h: "\<not> isspace (hd zs)" unfolding zs_def by (rule hd_dropWhile)
  from nz have "last zs = last (rev ys)" unfolding zs_def by (rule last_dropWhile_nonempty)
  moreover from nz have ny: "ys \<noteq> []" by (auto simp: zs_def)
  ultimately have "last zs = hd ys" by (simp add: last_rev)
  moreover from ny have "\<not> isspace (hd ys)" unfolding ys_def by (rule hd_dropWhile)
  ultimately show ?thesis using h nz s by (simp add: hd_rev last_rev)
qed

lemma strip_fixed: "t = [] \<or> (\<not> isspace (hd t) \<and> \<not> isspace (last t)) \<Longrightarrow> strip t = t"
proof (cases t)
  case Nil then show ?thesis by (simp add: strip_def)
next
  case (Cons a as)
  assume "t = [] \<or> (\<not> isspace (hd t) \<and> \<not> isspace (last t))"
  with Cons have a: "\<not> isspace a" and l: "\<not> isspace (last t)" by auto
  from a Cons have 1: "dropWhile isspace t = t" by simp
  from Cons have "rev t \<noteq> []" by simp
  moreover have "hd (rev t) = last t" using Cons by (simp only: hd_rev list.distinct not_False_eq_True)
  with l have "\<not> isspace (hd (rev t))" by simp
  ultimately have "dropWhile isspace (rev t) = rev t" by (cases "rev t") auto
  with 1 show ?thesis by (simp add: strip_def)
qed

lemma strip_idem: "strip (strip s) = strip s"
  using strip_ends [of s] by (rule strip_fixed)

lemma strip_lower: "strip (lower s) = lower (strip s)"
  by (simp add: strip_def lower_def dropWhile_map rev_map comp_def isspace_lower_char)

lemma lower_idem: "lower (lower s) = lower s"
  by (simp add: lower_def lower_char_idem)

lemma normalize_idem: "lower (strip (lower (strip s))) = lower (strip s)"
  by (simp add: strip_lower lower_idem strip_idem)

lemma normalized_ends:
  "lower (strip s) = [] \<or> (\<not> isspace (hd (lower (strip s))) \<and> \<not> isspace (last (lower (strip s))))"
  using strip_ends [of s]
  by (auto simp: lower_def hd_map last_map isspace_lower_char)

section \<open>The two loops of \<open>classify_command\<close>\<close>

lemma first_pattern_None:
  "first_pattern pats t = None \<longleftrightarrow> (\<forall>pat\<in>set pats. re_search pat t = None)"
  by (induction pats) (auto split: option.splits)

lemma first_command_None:
  "first_command tab t = None \<longleftrightarrow> (\<forall>(c, pats)\<in>set tab. first_pattern pats t = None)"
  by (induction tab) (auto split: option.splits)

lemma first_pattern_first:
  "\<forall>p\<in>set ppre. re_search p t = None \<Longrightarrow> re_search pat t = Some g
   \<Longrightarrow> first_pattern (ppre @ pat # ppost) t = Some (if g \<noteq> [] then PTuple g else PNone)"
  by (induction ppre) auto

lemma first_command_first:
  "\<forall>(c, ps)\<in>set pre. first_pattern ps t = None \<Longrightarrow> first_pattern pats t = Some pl
   \<Longrightarrow> first_command (pre @ (a, pats) # post) t = Some (a, pl)"
  by (induction pre) auto

lemma first_command_earlier:
  "first_pattern pa t \<noteq> None
   \<Longrightarrow> \<exists>c pl. first_command (pre @ (a, pa) # post) t = Some (c, pl) \<and> c \<in> fst ` set (pre @ [(a, pa)])"
proof (induction pre)
  case Nil
  then show ?case by auto
next
  case (Cons e pre)
  obtain c ps where e: "e = (c, ps)" by (cases e)
  show ?case
  proof (cases "first_pattern ps t")
    case None
    with Cons e show ?thesis by auto
  next
    case (Some pl)
    with e show ?thesis by auto
  qed
qed

lemma later_name_not_earlier:
  "distinct (map fst (pre @ (a, pa) # mid @ (b, pb) # post)) \<Longrightarrow> b \<notin> fst ` set (pre @ [(a, pa)])"
  by (induction pre) auto

lemma what_is_the_time_normal: "lower (strip ''what is the time'') = ''what is the time''"
  by code_simp

lemma what_is_the_time_jarvis:
  "classify_command SmartCommandProcessor ''what is the time'' = (''time'', PNone)"
  by code_simp

lemma what_is_the_time_search:
  "first_pattern (snd (compiled_patterns SmartCommandProcessor ! 3)) ''what is the time''
     = Some (PTuple [Some ''what is'', Some ''the time''])"
  by code_simp

lemma what_is_the_time_time:
  "first_pattern (snd (compiled_patterns SmartCommandProcessor ! 0)) ''what is the time'' = Some PNone"
  by code_simp

lemma table_names:
  "map fst (compiled_patterns SmartCommandProcessor) =
     [''time'', ''date'', ''weather'', ''search'', ''open_website'', ''greeting'', ''thanks'',
      ''status'', ''clear'']"
  by (simp add: SmartCommandProcessor_def the_command_patterns_def)


lemma classify_first_match:
  assumes "compiled_patterns self = pre @ (a, ppre @ pat # ppost) # post"
    and "\<forall>(c, ps)\<in>set pre. \<forall>p\<in>set ps. re_search p (lower (strip s)) = None"
    and "\<forall>p\<in>set ppre. re_search p (lower (strip s)) = None"
    and "re_search pat (lower (strip s)) = Some g"
  shows "classify_command self s = (a, if g \<noteq> [] then PTuple g else PNone)"
proof -
  from assms(2) have "\<forall>(c, ps)\<in>set pre. first_pattern ps (lower (strip s)) = None"
    by (auto simp: first_pattern_None)
  moreover from assms(3,4) have "first_pattern (ppre @ pat # ppost) (lower (strip s))
      = Some (if g \<noteq> [] then PTuple g else PNone)"
    by (rule first_pattern_first)
  ultimately have "first_command (pre @ (a, ppre @ pat # ppost) # post) (lower (strip s))
      = Some (a, if g \<noteq> [] then PTuple g else PNone)"
    by (rule first_command_first)
  with assms(1) show ?thesis
    by (simp add: classify_command_def)
qed

lemma classify_earlier_wins:
  assumes e: "compiled_patterns self = pre @ (a, pa) # mid @ (b, pb) # post"
    and d: "distinct (map fst (compiled_patterns self))"
    and ma: "first_pattern pa (lower (strip s)) \<noteq> None"
  shows "fst (classify_command self s) \<noteq> b
         \<and> fst (classify_command self s) \<in> fst ` set (pre @ [(a, pa)])"
proof -
  from ma obtain c pl where
    c: "first_command (pre @ (a, pa) # mid @ (b, pb) # post) (lower (strip s)) = Some (c, pl)"
    and m: "c \<in> fst ` set (pre @ [(a, pa)])"
    using first_command_earlier [of pa "lower (strip s)" pre a "mid @ (b, pb) # post"] by blast
  from e c have r: "classify_command self s = (c, pl)"
    by (simp add: classify_command_def)
  from d have "distinct (map fst (pre @ (a, pa) # mid @ (b, pb) # post))" unfolding e .
  then have "b \<notin> fst ` set (pre @ [(a, pa)])" by (rule later_name_not_earlier)
  with m r show ?thesis by auto
qed

section \<open>Claims\<close>

text \<open>
  C1. \<open>classify_command\<close> goes through the intents in the order of the table and through
  the patterns of an intent in the order of their list, and the first pattern that the
  search finds in the utterance decides the result. When nothing before a pattern
  matches, that pattern's intent is returned with its groups; when an intent declared
  before \<open>b\<close> has a matching pattern, the result is never \<open>b\<close> but an intent declared
  at or before the earlier one. \<open>what is the time\<close> is classified as \<open>time\<close>, although
  a pattern of \<open>search\<close>, declared later, matches it too.
\<close>


theorem C1_first_match_wins:
  "(compiled_patterns self = pre @ (a, ppre @ pat # ppost) # post
      \<and> (\<forall>(c, ps)\<in>set pre. \<forall>p\<in>set ps. re_search p (lower (strip s)) = None)
      \<and> (\<forall>p\<in>set ppre. re_search p (lower (strip s)) = None)
      \<and> re_search pat (lower (strip s)) = Some g
     \<longrightarrow> classify_command self s = (a, if g \<noteq> [] then PTuple g else PNone))
   \<and> (compiled_patterns self = pre' @ (a', pa) # mid @ (b, pb) # post'
      \<and> distinct (map fst (compiled_patterns self))
      \<and> first_pattern pa (lower (strip s)) \<noteq> None
      \<and> first_pattern pb (lower (strip s)) \<noteq> None
     \<longrightarrow> fst (classify_command self s) \<noteq> b
         \<and> fst (classify_command self s) \<in> fst ` set (pre' @ [(a', pa)]))
   \<and> classify_command SmartCommandProcessor ''what is the time'' = (''time'', PNone)
   \<and> fst (compiled_patterns SmartCommandProcessor ! 3) = ''search''
   \<and> first_pattern (snd (compiled_patterns SmartCommandProcessor ! 3)) ''what is the time''
         = Some (PTuple [Some ''what is'', Some ''the time''])"
proof -
  have p1: "compiled_patterns self = pre @ (a, ppre @ pat # ppost) # post
      \<and> (\<forall>(c, ps)\<in>set pre. \<forall>p\<in>set ps. re_search p (lower (strip s)) = None)
      \<and> (\<forall>p\<in>set ppre. re_search p (lower (strip s)) = None)
      \<and> re_search pat (lower (strip s)) = Some g
     \<longrightarrow> classify_command self s = (a, if g \<noteq> [] then PTuple g else PNone)"
  proof (intro impI, elim conjE)
    assume "compiled_patterns self = pre @ (a, ppre @ pat # ppost) # post"
      and "\<forall>(c, ps)\<in>set pre. \<forall>p\<in>set ps. re_search p (lower (strip s)) = None"
      and "\<forall>p\<in>set ppre. re_search p (lower (strip s)) = None"
      and "re_search pat (lower (strip s)) = Some g"
    then show "classify_command self s = (a, if g \<noteq> [] then PTuple g else PNone)"
      by (rule classify_first_match)
  qed
  have p2: "compiled_patterns self = pre' @ (a', pa) # mid @ (b, pb) # post'
      \<and> distinct (map fst (compiled_patterns self))
      \<and> first_pattern pa (lower (strip s)) \<noteq> None
      \<and> first_pattern pb (lower (strip s)) \<noteq> None
     \<longrightarrow> fst (classify_command self s) \<noteq> b
         \<and> fst (classify_command self s) \<in> fst ` set (pre' @ [(a', pa)])"
  proof (intro impI, elim conjE)
    assume "compiled_patterns self = pre' @ (a', pa) # mid @ (b, pb) # post'"
      and "distinct (map fst (compiled_patterns self))"
      and "first_pattern pa (lower (strip s)) \<noteq> None"
    then show "fst (classify_command self s) \<noteq> b
         \<and> fst (classify_command self s) \<in> fst ` set (pre' @ [(a', pa)])"
      by (rule classify_earlier_wins)
  qed
  have p4: "fst (compiled_patterns SmartCommandProcessor ! 3) = ''search''"
    by (simp add: SmartCommandProcessor_def the_command_patterns_def)
  show ?thesis
    by (intro conjI) (rule p1, rule p2, rule what_is_the_time_jarvis, rule p4,
        rule what_is_the_time_search)
qed

lemma table_split_time:
  "compiled_patterns SmartCommandProcessor =
     [] @ (''time'', [snd (compiled_patterns SmartCommandProcessor ! 0) ! 0]
                      @ (snd (compiled_patterns SmartCommandProcessor ! 0) ! 1) # [])
        # drop 1 (compiled_patterns SmartCommandProcessor)"
  by (simp add: SmartCommandProcessor_def the_command_patterns_def)

lemma table_split_time_search:
  "compiled_patterns SmartCommandProcessor =
     [] @ (''time'', snd (compiled_patterns SmartCommandProcessor ! 0))
        # take 2 (drop 1 (compiled_patterns SmartCommandProcessor))
        @ (''search'', snd (compiled_patterns SmartCommandProcessor ! 3))
        # drop 4 (compiled_patterns SmartCommandProcessor)"
  by (simp add: SmartCommandProcessor_def the_command_patterns_def)

lemma what_is_the_time_keyword:
  "re_search (snd (compiled_patterns SmartCommandProcessor ! 0) ! 0) ''what is the time'' = None"
  by code_simp

lemma what_is_the_time_bare:
  "re_search (snd (compiled_patterns SmartCommandProcessor ! 0) ! 1) ''what is the time'' = Some []"
  by code_simp

theorem C1_first_match_wins_witness:
  "compiled_patterns SmartCommandProcessor =
     [] @ (''time'', [snd (compiled_patterns SmartCommandProcessor ! 0) ! 0]
                      @ (snd (compiled_patterns SmartCommandProcessor ! 0) ! 1) # [])
        # drop 1 (compiled_patterns SmartCommandProcessor)
   \<and> re_search (snd (compiled_patterns SmartCommandProcessor ! 0) ! 0)
        (lower (strip ''what is the time'')) = None
   \<and> re_search (snd (compiled_patterns SmartCommandProcessor ! 0) ! 1)
        (lower (strip ''what is the time'')) = Some []
   \<and> classify_command SmartCommandProcessor ''what is the time'' = (''time'', PNone)
   \<and> compiled_patterns SmartCommandProcessor =
     [] @ (''time'', snd (compiled_patterns SmartCommandProcessor ! 0))
        # take 2 (drop 1 (compiled_patterns SmartCommandProcessor))
        @ (''search'', snd (compiled_patterns SmartCommandProcessor ! 3))
        # drop 4 (compiled_patterns SmartCommandProcessor)
   \<and> distinct (map fst (compiled_patterns SmartCommandProcessor))
   \<and> first_pattern (snd (compiled_patterns SmartCommandProcessor ! 0))
        (lower (strip ''what is the time'')) \<noteq> None
   \<and> first_pattern (snd (compiled_patterns SmartCommandProcessor ! 3))
        (lower (strip ''what is the time'')) \<noteq> None
   \<and> fst (classify_command SmartCommandProcessor ''what is the time'') \<noteq> ''search''
   \<and> fst (classify_command SmartCommandProcessor ''what is the time'')
        \<in> fst ` set ([] @ [(''time'', snd (compiled_patterns SmartCommandProcessor ! 0))])"
proof -
  note n = what_is_the_time_normal
  have h1: "\<forall>(c, ps)\<in>set ([] :: (string \<times> pattern list) list). \<forall>p\<in>set ps.
      re_search p (lower (strip ''what is the time'')) = None"
    by simp
  have h2': "re_search (snd (compiled_patterns SmartCommandProcessor ! 0) ! 0)
      (lower (strip ''what is the time'')) = None"
    by (simp only: n what_is_the_time_keyword)
  then have h2: "\<forall>p\<in>set [snd (compiled_patterns SmartCommandProcessor ! 0) ! 0].
      re_search p (lower (strip ''what is the time'')) = None"
    by simp
  have h3: "re_search (snd (compiled_patterns SmartCommandProcessor ! 0) ! 1)
      (lower (strip ''what is the time'')) = Some []"
    by (simp only: n what_is_the_time_bare)
  have h4: "distinct (map fst (compiled_patterns SmartCommandProcessor))"
    by (simp add: table_names)
  have h5: "first_pattern (snd (compiled_patterns SmartCommandProcessor ! 0))
        (lower (strip ''what is the time'')) \<noteq> None"
    by (simp only: n what_is_the_time_time) simp
  have h6: "first_pattern (snd (compiled_patterns SmartCommandProcessor ! 3))
        (lower (strip ''what is the time'')) \<noteq> None"
    by (simp only: n what_is_the_time_search) simp
  note t = C1_first_match_wins [of SmartCommandProcessor "[]" "''time''"
      "[snd (compiled_patterns SmartCommandProcessor ! 0) ! 0]"
      "snd (compiled_patterns SmartCommandProcessor ! 0) ! 1" "[]"
      "drop 1 (compiled_patterns SmartCommandProcessor)" "''what is the time''" "[]"
      "[]" "''time''" "snd (compiled_patterns SmartCommandProcessor ! 0)"
      "take 2 (drop 1 (compiled_patterns SmartCommandProcessor))" "''search''"
      "snd (compiled_patterns SmartCommandProcessor ! 3)"
      "drop 4 (compiled_patterns SmartCommandProcessor)"]
  from mp [OF t [THEN conjunct1] conjI [OF table_split_time conjI [OF h1 conjI [OF h2 h3]]]]
  have c1: "classify_command SmartCommandProcessor ''what is the time'' = (''time'', PNone)"
    by simp
  note c2 = mp [OF t [THEN conjunct2, THEN conjunct1]
      conjI [OF table_split_time_search conjI [OF h4 conjI [OF h5 h6]]]]
  show ?thesis
    by (intro conjI) (rule table_split_time, rule h2', rule h3, rule c1,
        rule table_split_time_search, rule h4, rule h5, rule h6,
        rule c2 [THEN conjunct1], rule c2 [THEN conjunct2])
qed

lemma empty_general: "classify_command SmartCommandProcessor [] = (''general'', PStr [])"
  by code_simp

lemma xyzzy_general:
  "classify_command SmartCommandProcessor ''xyzzy plugh quux'' = (''general'', PStr ''xyzzy plugh quux'')"
  by code_simp

lemma xyzzy_no_match:
  "\<forall>(c, pats)\<in>set (compiled_patterns SmartCommandProcessor).
      \<forall>pat\<in>set pats. re_search pat (lower (strip ''xyzzy plugh quux'')) = None"
  by code_simp

lemma classify_no_match:
  assumes "\<forall>(c, pats)\<in>set (compiled_patterns self).
      \<forall>pat\<in>set pats. re_search pat (lower (strip s)) = None"
  shows "classify_command self s = (''general'', PStr (lower (strip s)))"
proof -
  from assms have "first_command (compiled_patterns self) (lower (strip s)) = None"
    by (auto simp: first_command_None first_pattern_None)
  then show ?thesis by (simp add: classify_command_def)
qed

text \<open>
  C3. When no pattern of the table matches the normalised utterance, the result is the
  intent \<open>general\<close> with the normalised utterance as payload; \<open>xyzzy plugh quux\<close> and
  the empty string are classified so.
\<close>

theorem C3_fallback:
  "((\<forall>(c, pats)\<in>set (compiled_patterns self).
        \<forall>pat\<in>set pats. re_search pat (lower (strip s)) = None)
     \<longrightarrow> classify_command self s = (''general'', PStr (lower (strip s))))
   \<and> classify_command SmartCommandProcessor ''xyzzy plugh quux''
       = (''general'', PStr ''xyzzy plugh quux'')
   \<and> classify_command SmartCommandProcessor [] = (''general'', PStr [])"
  using classify_no_match [of self s] xyzzy_general empty_general by blast

theorem C3_fallback_witness:
  "first_command (compiled_patterns SmartCommandProcessor) (lower (strip ''xyzzy plugh quux'')) = None
   \<and> classify_command SmartCommandProcessor ''xyzzy plugh quux''
       = (''general'', PStr (lower (strip ''xyzzy plugh quux'')))"
proof
  from xyzzy_no_match
  show "first_command (compiled_patterns SmartCommandProcessor)
      (lower (strip ''xyzzy plugh quux'')) = None"
    unfolding first_command_None first_pattern_None .
  from mp [OF C3_fallback [of SmartCommandProcessor "''xyzzy plugh quux''", THEN conjunct1]
      xyzzy_no_match]
  show "classify_command SmartCommandProcessor ''xyzzy plugh quux''
       = (''general'', PStr (lower (strip ''xyzzy plugh quux'')))" .
qed

lemma hello_there_1:
  "classify_command SmartCommandProcessor ''  Hello There  '' = (''greeting'', PTuple [Some ''hello''])"
  by code_simp

lemma hello_there_2:
  "classify_command SmartCommandProcessor ''hello there'' = (''greeting'', PTuple [Some ''hello''])"
  by code_simp

text \<open>
  C7. Classifying a string and classifying its normalised form (stripped, then
  lower-cased) give the same result; \<open>"  Hello There  "\<close> and \<open>"hello there"\<close> get the
  same intent.
\<close>

theorem C7_normalisation_invariant:
  "classify_command self s = classify_command self (lower (strip s))
   \<and> classify_command SmartCommandProcessor ''  Hello There  ''
       = classify_command SmartCommandProcessor ''hello there''
   \<and> fst (classify_command SmartCommandProcessor ''hello there'') = ''greeting''"
  by (simp add: classify_command_def normalize_idem hello_there_1 [unfolded classify_command_def]
      hello_there_2 [unfolded classify_command_def])

lemma remove_prefix_find:
  "remove_prefix ps text =
     (case find (startswith (lower text)) ps of
        None \<Rightarrow> text
      | Some p \<Rightarrow> strip (drop (length p) text))"
  by (induction ps) auto

lemma remove_prefix_none:
  "\<forall>p\<in>set ps. \<not> startswith (lower text) p \<Longrightarrow> remove_prefix ps text = text"
  by (induction ps) auto

lemma black_holes:
  "extract_search_query ''tell me about black holes'' PNone = Inr ''black holes''"
  by code_simp

lemma xyzzy_no_prefix:
  "list_all (\<lambda>p. \<not> startswith (lower ''xyzzy plugh quux'') p) prefixes"
  by code_simp

text \<open>
  C5. Called without capture groups (\<open>None\<close> or an empty tuple), \<open>extract_search_query\<close>
  takes the first prefix of its list, in the order of the list, with which the
  lower-cased text starts, and returns the text after that many characters, stripped;
  when the text starts with none of them it returns the text as it is.
  \<open>tell me about black holes\<close> gives \<open>black holes\<close>.
\<close>

theorem C5_prefix_fallback:
  "extract_search_query text PNone =
     Inr (case find (startswith (lower text)) prefixes of
            None \<Rightarrow> text
          | Some p \<Rightarrow> strip (drop (length p) text))
   \<and> extract_search_query text (PTuple []) = extract_search_query text PNone
   \<and> (list_all (\<lambda>p. \<not> startswith (lower text) p) prefixes
        \<longrightarrow> extract_search_query text PNone = Inr text)
   \<and> extract_search_query ''tell me about black holes'' PNone = Inr ''black holes''"
proof -
  have 1: "extract_search_query text PNone =
     Inr (case find (startswith (lower text)) prefixes of
            None \<Rightarrow> text
          | Some p \<Rightarrow> strip (drop (length p) text))"
    by (simp add: remove_prefix_find)
  have 2: "extract_search_query text (PTuple []) = extract_search_query text PNone"
    by simp
  have 3: "list_all (\<lambda>p. \<not> startswith (lower text) p) prefixes
        \<longrightarrow> extract_search_query text PNone = Inr text"
    by (simp add: list_all_iff remove_prefix_none)
  show ?thesis
    by (intro conjI) (rule 1, rule 2, rule 3, rule black_holes)
qed

theorem C5_prefix_fallback_witness:
  "extract_search_query ''xyzzy plugh quux'' PNone = Inr ''xyzzy plugh quux''"
  using mp [OF C5_prefix_fallback [of "''xyzzy plugh quux''", THEN conjunct2, THEN conjunct2,
        THEN conjunct1] xyzzy_no_prefix] .

lemma eiffel_classify:
  "classify_command SmartCommandProcessor ''search for the eiffel tower''
     = (''search'', PTuple [Some ''search for'', Some ''the eiffel tower''])"
  by code_simp

lemma eiffel_extract:
  "extract_search_query ''search for the eiffel tower''
     (PTuple [Some ''search for'', Some ''the eiffel tower'']) = Inr ''the eiffel tower''"
  by code_simp

lemma eiffel_search:
  "re_search (snd (compiled_patterns SmartCommandProcessor ! 3) ! 0) ''search for the eiffel tower''
     = Some [Some ''search for'', Some ''the eiffel tower'']"
  by code_simp

lemma github_classify:
  "classify_command SmartCommandProcessor ''open github'' = (''open_website'', PTuple [Some ''github''])"
  by code_simp

lemma github_extract:
  "extract_search_query ''open github'' (PTuple [Some ''github'']) = Inr ''github''"
  by code_simp

lemma github_process:
  "process_command SmartCommandProcessor ''open github'' = Inr (Handle_open_website (Some ''github''))"
  by code_simp

lemma eiffel_process:
  "process_command SmartCommandProcessor ''search for the eiffel tower''
     = Inr (Handle_search_command ''the eiffel tower'')"
  by code_simp

text \<open>
  C4. When the pattern that wins has capture groups, the payload is the tuple of its
  groups in order, and \<open>extract_search_query\<close> returns the last group, stripped.
  \<open>search for the eiffel tower\<close> is classified as \<open>search\<close> and the query extracted
  is \<open>the eiffel tower\<close>; \<open>open github\<close> is classified as \<open>open_website\<close> and both the
  extraction and the dispatcher give \<open>github\<close>.
\<close>

theorem C4_capture_extraction:
  "(re_search pat t = Some g \<and> g \<noteq> [] \<longrightarrow> first_pattern (pat # pats) t = Some (PTuple g))
   \<and> (g \<noteq> [] \<and> last g = Some x \<longrightarrow> extract_search_query text (PTuple g) = Inr (strip x))
   \<and> classify_command SmartCommandProcessor ''search for the eiffel tower''
       = (''search'', PTuple [Some ''search for'', Some ''the eiffel tower''])
   \<and> extract_search_query ''search for the eiffel tower''
       (PTuple [Some ''search for'', Some ''the eiffel tower'']) = Inr ''the eiffel tower''
   \<and> process_command SmartCommandProcessor ''search for the eiffel tower''
       = Inr (Handle_search_command ''the eiffel tower'')
   \<and> classify_command SmartCommandProcessor ''open github''
       = (''open_website'', PTuple [Some ''github''])
   \<and> extract_search_query ''open github'' (PTuple [Some ''github'']) = Inr ''github''
   \<and> process_command SmartCommandProcessor ''open github''
       = Inr (Handle_open_website (Some ''github''))"
proof -
  have 1: "re_search pat t = Some g \<and> g \<noteq> [] \<longrightarrow> first_pattern (pat # pats) t = Some (PTuple g)"
    by simp
  have 2: "g \<noteq> [] \<and> last g = Some x \<longrightarrow> extract_search_query text (PTuple g) = Inr (strip x)"
    by simp
  show ?thesis
    by (intro conjI) (rule 1, rule 2, rule eiffel_classify, rule eiffel_extract,
        rule eiffel_process, rule github_classify, rule github_extract, rule github_process)
qed

theorem C4_capture_extraction_witness:
  "re_search (snd (compiled_patterns SmartCommandProcessor ! 3) ! 0) ''search for the eiffel tower''
     = Some [Some ''search for'', Some ''the eiffel tower'']
   \<and> first_pattern [snd (compiled_patterns SmartCommandProcessor ! 3) ! 0]
        ''search for the eiffel tower''
       = Some (PTuple [Some ''search for'', Some ''the eiffel tower''])
   \<and> last [Some ''search for'', Some ''the eiffel tower''] = Some ''the eiffel tower''
   \<and> extract_search_query ''anything'' (PTuple [Some ''search for'', Some ''the eiffel tower''])
       = Inr (strip ''the eiffel tower'')"
proof -
  note t = C4_capture_extraction [of "snd (compiled_patterns SmartCommandProcessor ! 3) ! 0"
      "''search for the eiffel tower''" "[Some ''search for'', Some ''the eiffel tower'']" "[]"
      "''the eiffel tower''" "''anything''"]
  have n: "[Some ''search for'', Some ''the eiffel tower''] \<noteq> []" by simp
  have l: "last [Some ''search for'', Some ''the eiffel tower''] = Some ''the eiffel tower''"
    by simp
  note c1 = mp [OF t [THEN conjunct1] conjI [OF eiffel_search n]]
  note c2 = mp [OF t [THEN conjunct2, THEN conjunct1] conjI [OF n l]]
  show ?thesis
    by (intro conjI) (rule eiffel_search, rule c1, rule l, rule c2)
qed

lemma what_is_the_time_12:
  "process_command12 True ''what is the time'' = Ask_model ''what is the time''
   \<and> process_command12 False ''what is the time'' = Default_response"
  by code_simp

text \<open>
  C9, as stated, has one variant check the generic \<open>what is\<close> search patterns before its
  time and date checks. Neither does: on \<open>what is the time\<close>, where such a variant would
  answer with a search, jarvis.py answers \<open>time\<close> and the keyword scan of jarvis12 falls
  through to its last branch, whether the chat model is available or not.
\<close>

theorem C9_search_first_counterexample:
  "\<not> (fst (classify_command SmartCommandProcessor ''what is the time'') = ''search''
      \<or> intent12 (process_command12 True ''what is the time'') = ''search''
      \<or> intent12 (process_command12 False ''what is the time'') = ''search'')"
  by (simp add: what_is_the_time_jarvis what_is_the_time_12)

text \<open>
  C9, amended. The two variants route differently: jarvis.py declares \<open>time\<close> and \<open>date\<close>
  before \<open>search\<close> in its ordered table of patterns, so that \<open>what is the time\<close>, which
  a \<open>what is\<close> search pattern matches too, is classified as \<open>time\<close>; the flat keyword
  scan of jarvis12 knows the time only as one of three exact commands and sends the same
  utterance to its general fallback.
\<close>

theorem C9_variants_differ:
  "map fst (compiled_patterns SmartCommandProcessor) =
     [''time'', ''date'', ''weather'', ''search'', ''open_website'', ''greeting'', ''thanks'',
      ''status'', ''clear'']
   \<and> first_pattern (snd (compiled_patterns SmartCommandProcessor ! 3)) ''what is the time''
         = Some (PTuple [Some ''what is'', Some ''the time''])
   \<and> fst (classify_command SmartCommandProcessor ''what is the time'') = ''time''
   \<and> intent12 (process_command12 ollama_ready ''what is the time'') = ''general''
   \<and> fst (classify_command SmartCommandProcessor ''what is the time'')
       \<noteq> intent12 (process_command12 ollama_ready ''what is the time'')"
proof -
  have "intent12 (process_command12 ollama_ready ''what is the time'') = ''general''"
    by (cases ollama_ready) (simp_all add: what_is_the_time_12)
  then show ?thesis
    by (simp add: what_is_the_time_jarvis table_names what_is_the_time_search)
qed

section \<open>What a match leaves behind\<close>

lemma lit_match_suffix:
  "lit_match ic cs p s = Some (p', r) \<Longrightarrow> \<exists>u. s = u @ r"
proof (induction ic cs p s rule: lit_match.induct)
  case (3 ic c cs p x xs)
  then show ?case by (auto split: if_splits intro: exI [of _ "x # u" for u])
qed auto

lemma plus_greedy_result:
  "plus_greedy P p s k = Some res \<Longrightarrow> \<exists>p' r u. k p' r = Some res \<and> s = u @ r"
proof (induction s arbitrary: p)
  case Nil
  then show ?case by simp
next
  case (Cons x xs)
  show ?case
  proof (cases "plus_greedy P (Some x) xs k")
    case None
    with Cons.prems have "k (Some x) xs = Some res" by (simp split: if_splits)
    then show ?thesis by (metis append_Cons append_Nil)
  next
    case (Some r')
    with Cons.prems have "r' = res" by (simp split: if_splits)
    with Some Cons.IH obtain p' r u where "k p' r = Some res" "xs = u @ r" by blast
    then show ?thesis by (metis append_Cons)
  qed
qed

lemma rmatch_invariant:
  "rmatch ic r st k = Some res \<Longrightarrow>
   \<exists>st'. k st' = Some res \<and> length (caps st') = length (caps st)
     \<and> (\<exists>u. rest st = u @ rest st')
     \<and> (\<forall>i<length (caps st). i \<in> sure_groups r \<or> caps st ! i \<noteq> None \<longrightarrow> caps st' ! i \<noteq> None)"
proof (induction r arbitrary: st k)
  case (Lit cs)
  then obtain p r where m: "lit_match ic cs (prev st) (rest st) = Some (p, r)"
    and k: "k (st\<lparr>prev := p, rest := r\<rparr>) = Some res"
    by (auto split: option.splits)
  from lit_match_suffix [OF m] obtain u where "rest st = u @ r" ..
  with k show ?case by (intro exI [of _ "st\<lparr>prev := p, rest := r\<rparr>"]) auto
next
  case Bol
  then show ?case by (auto split: if_splits)
next
  case WordB
  then show ?case by (auto split: if_splits)
next
  case (Plus c)
  then have "plus_greedy (in_class c) (prev st) (rest st)
      (\<lambda>p r. k (st\<lparr>prev := p, rest := r\<rparr>)) = Some res" by simp
  from plus_greedy_result [OF this] obtain p r u
    where "k (st\<lparr>prev := p, rest := r\<rparr>) = Some res" "rest st = u @ r" by blast
  then show ?case by (intro exI [of _ "st\<lparr>prev := p, rest := r\<rparr>"]) auto
next
  case (Seq a b)
  from Seq.prems have "rmatch ic a st (\<lambda>st'. rmatch ic b st' k) = Some res" by simp
  from Seq.IH(1) [OF this] obtain st1 where
    1: "rmatch ic b st1 k = Some res" and l1: "length (caps st1) = length (caps st)"
    and u1: "\<exists>u. rest st = u @ rest st1"
    and g1: "\<forall>i<length (caps st). i \<in> sure_groups a \<or> caps st ! i \<noteq> None \<longrightarrow> caps st1 ! i \<noteq> None"
    by blast
  from Seq.IH(2) [OF 1] obtain st2 where
    2: "k st2 = Some res" and l2: "length (caps st2) = length (caps st1)"
    and u2: "\<exists>u. rest st1 = u @ rest st2"
    and g2: "\<forall>i<length (caps st1). i \<in> sure_groups b \<or> caps st1 ! i \<noteq> None \<longrightarrow> caps st2 ! i \<noteq> None"
    by blast
  from u1 u2 have "\<exists>u. rest st = u @ rest st2" by (metis append.assoc)
  moreover from g1 g2 l1 have "\<forall>i<length (caps st).
      i \<in> sure_groups (Seq a b) \<or> caps st ! i \<noteq> None \<longrightarrow> caps st2 ! i \<noteq> None"
    by auto
  ultimately show ?case using 2 l1 l2 by (intro exI [of _ st2]) simp
next
  case (Alt a b)
  show ?case
  proof (cases "rmatch ic a st k")
    case None
    with Alt.prems have "rmatch ic b st k = Some res" by simp
    from Alt.IH(2) [OF this] show ?thesis by auto
  next
    case (Some r')
    with Alt.prems have "rmatch ic a st k = Some res" by simp
    from Alt.IH(1) [OF this] show ?thesis by auto
  qed
next
  case (Group i r)
  let ?k = "\<lambda>st'. k (st'\<lparr>caps := (caps st')
                  [i := Some (take (length (rest st) - length (rest st')) (rest st))]\<rparr>)"
  from Group.prems have "rmatch ic r st ?k = Some res" by simp
  from Group.IH [OF this] obtain st1 where
    1: "?k st1 = Some res" and l1: "length (caps st1) = length (caps st)"
    and u1: "\<exists>u. rest st = u @ rest st1"
    and g1: "\<forall>i<length (caps st). i \<in> sure_groups r \<or> caps st ! i \<noteq> None \<longrightarrow> caps st1 ! i \<noteq> None"
    by blast
  let ?st2 = "st1\<lparr>caps := (caps st1)
                  [i := Some (take (length (rest st) - length (rest st1)) (rest st))]\<rparr>"
  have "\<forall>j<length (caps st).
      j \<in> sure_groups (Group i r) \<or> caps st ! j \<noteq> None \<longrightarrow> caps ?st2 ! j \<noteq> None"
  proof (intro allI impI)
    fix j
    assume j: "j < length (caps st)"
      and h: "j \<in> sure_groups (Group i r) \<or> caps st ! j \<noteq> None"
    show "caps ?st2 ! j \<noteq> None"
    proof (cases "j = i")
      case True
      with j l1 show ?thesis by simp
    next
      case False
      with h have "j \<in> sure_groups r \<or> caps st ! j \<noteq> None" by simp
      with g1 j have "caps st1 ! j \<noteq> None" by blast
      with False show ?thesis by simp
    qed
  qed
  with 1 l1 u1 show ?case by (intro exI [of _ ?st2]) simp
qed

lemma search_from_groups:
  "search_from pat p s = Some g \<Longrightarrow>
   length g = ngroups (tree pat) \<and> (\<forall>i<length g. i \<in> sure_groups (tree pat) \<longrightarrow> g ! i \<noteq> None)"
proof (induction s arbitrary: p)
  case Nil
  then have "rmatch (ignorecase pat) (tree pat)
       \<lparr>prev = p, rest = [], caps = replicate (ngroups (tree pat)) None\<rparr>
       (\<lambda>st. Some (caps st)) = Some g" by simp
  from rmatch_invariant [OF this] show ?case by auto
next
  case (Cons x xs)
  show ?case
  proof (cases "rmatch (ignorecase pat) (tree pat)
             \<lparr>prev = p, rest = x # xs, caps = replicate (ngroups (tree pat)) None\<rparr>
             (\<lambda>st. Some (caps st))")
    case None
    with Cons.prems have "search_from pat (Some x) xs = Some g" by simp
    then show ?thesis by (rule Cons.IH)
  next
    case (Some g')
    with Cons.prems have "g' = g" by simp
    with Some rmatch_invariant [OF Some [unfolded \<open>g' = g\<close>]] show ?thesis by auto
  qed
qed


lemma ngroups_phrase: "ngroups (phrase ws) = 0"
  by (induction ws rule: phrase.induct) auto

lemma ngroups_alts: "\<forall>r\<in>set rs. ngroups r = 0 \<Longrightarrow> ngroups (alts rs) = 0"
  by (induction rs rule: alts.induct) auto

lemma ngroups_alts_phrases: "ngroups (alts (map phrase ps)) = 0"
  by (rule ngroups_alts) (simp add: ngroups_phrase)

lemma ngroups_keyword: "ngroups (keyword ps) = 1"
  by (simp add: keyword_def ngroups_alts_phrases)

lemma ngroups_bare_word: "ngroups (bare_word w) = 0"
  by (simp add: bare_word_def)

lemma ngroups_lead2: "ngroups (lead2 ps) = 2"
  by (simp add: lead2_def ngroups_alts_phrases)

lemma ngroups_lead1: "ngroups (lead1 p) = 1"
  by (simp add: lead1_def ngroups_phrase)

lemma sure_keyword: "i < ngroups (keyword ps) \<Longrightarrow> i \<in> sure_groups (keyword ps)"
  by (simp add: ngroups_keyword) (simp add: keyword_def)

lemma sure_bare_word: "i < ngroups (bare_word w) \<Longrightarrow> i \<in> sure_groups (bare_word w)"
  by (simp add: ngroups_bare_word)

lemma sure_lead2: "i < ngroups (lead2 ps) \<Longrightarrow> i \<in> sure_groups (lead2 ps)"
  by (simp add: ngroups_lead2) (auto simp: lead2_def less_Suc_eq numeral_2_eq_2)

lemma sure_lead1: "i < ngroups (lead1 p) \<Longrightarrow> i \<in> sure_groups (lead1 p)"
  by (simp add: ngroups_lead1) (simp add: lead1_def)

lemma table_groups_all:
  "\<forall>(c, pats)\<in>set (compiled_patterns SmartCommandProcessor).
     \<forall>pat\<in>set pats. \<forall>i<ngroups (tree pat). i \<in> sure_groups (tree pat)"
  by (simp add: SmartCommandProcessor_def the_command_patterns_def re_compile_def
      sure_keyword sure_bare_word sure_lead2 sure_lead1)

lemma table_groups_sure:
  assumes "(c, pats) \<in> set (compiled_patterns SmartCommandProcessor)" and "pat \<in> set pats"
    and "i < ngroups (tree pat)"
  shows "i \<in> sure_groups (tree pat)"
  using table_groups_all assms by blast

lemma table_search_no_None:
  assumes "(c, pats) \<in> set (compiled_patterns SmartCommandProcessor)" and "pat \<in> set pats"
    and "re_search pat t = Some g"
  shows "None \<notin> set g"
proof
  assume "None \<in> set g"
  then obtain i where i: "i < length g" and n: "g ! i = None"
    by (auto simp: in_set_conv_nth)
  from assms(3) have l: "length g = ngroups (tree pat)"
    and s: "\<forall>i<length g. i \<in> sure_groups (tree pat) \<longrightarrow> g ! i \<noteq> None"
    using search_from_groups [of pat None t g] by (auto simp: re_search_def)
  from i l have "i \<in> sure_groups (tree pat)"
    by (intro table_groups_sure [OF assms(1,2)]) simp
  with s i n show False by blast
qed

lemma first_pattern_Some:
  "first_pattern pats t = Some pl \<Longrightarrow>
   \<exists>pat\<in>set pats. \<exists>g. re_search pat t = Some g \<and> pl = (if g \<noteq> [] then PTuple g else PNone)"
proof (induction pats)
  case Nil
  then show ?case by simp
next
  case (Cons a pats)
  show ?case
  proof (cases "re_search a t")
    case None
    with Cons.prems have "first_pattern pats t = Some pl" by simp
    from Cons.IH [OF this] show ?thesis by auto
  next
    case (Some g)
    with Cons.prems have "pl = (if g \<noteq> [] then PTuple g else PNone)" by simp
    with Some show ?thesis by (intro bexI [of _ a] exI [of _ g]) simp_all
  qed
qed

lemma first_command_Some:
  "first_command tab t = Some (c, pl) \<Longrightarrow> \<exists>pats. (c, pats) \<in> set tab \<and> first_pattern pats t = Some pl"
  by (induction tab) (auto split: option.splits)

lemma classify_shape:
  assumes "classify_command SmartCommandProcessor s = (intent, payload)"
  shows "(intent = ''general'' \<and> payload = PStr (lower (strip s)))
     \<or> payload = PNone
     \<or> (\<exists>g. payload = PTuple g \<and> g \<noteq> [] \<and> None \<notin> set g)"
proof (cases "first_command (compiled_patterns SmartCommandProcessor) (lower (strip s))")
  case None
  with assms show ?thesis by (simp add: classify_command_def)
next
  case (Some r)
  with assms have "first_command (compiled_patterns SmartCommandProcessor) (lower (strip s))
      = Some (intent, payload)"
    by (simp add: classify_command_def)
  from first_command_Some [OF this] obtain pats where
    t: "(intent, pats) \<in> set (compiled_patterns SmartCommandProcessor)"
    and f: "first_pattern pats (lower (strip s)) = Some payload" by blast
  from first_pattern_Some [OF f] obtain pat g where
    p: "pat \<in> set pats" and r: "re_search pat (lower (strip s)) = Some g"
    and pl: "payload = (if g \<noteq> [] then PTuple g else PNone)" by blast
  from table_search_no_None [OF t p r] pl show ?thesis by auto
qed

lemma shape_no_raise:
  assumes "payload = PStr u \<or> payload = PNone
     \<or> (\<exists>g. payload = PTuple g \<and> g \<noteq> [] \<and> None \<notin> set g)"
  shows "(\<exists>q. extract_search_query text payload = Inr q)
     \<and> (truthy payload \<longrightarrow> (\<exists>site. open_site payload = Inr site))"
proof -
  { fix g :: "string option list"
    assume g: "g \<noteq> []" "None \<notin> set g"
    then have "last g \<in> set g" by simp
    with g have "\<exists>x. last g = Some x" by (cases "last g") auto
    with g have "(\<exists>q. extract_search_query text (PTuple g) = Inr q)
        \<and> (\<exists>site. open_site (PTuple g) = Inr site)"
      by (cases g) auto }
  with assms show ?thesis by auto
qed

lemma process_command_no_raise: "\<exists>h. process_command SmartCommandProcessor s = Inr h"
proof -
  obtain intent payload where c: "classify_command SmartCommandProcessor s = (intent, payload)"
    by (cases "classify_command SmartCommandProcessor s")
  from classify_shape [OF c]
  have "payload = PStr (lower (strip s)) \<or> payload = PNone
     \<or> (\<exists>g. payload = PTuple g \<and> g \<noteq> [] \<and> None \<notin> set g)" by blast
  from shape_no_raise [OF this, of s] obtain q where
    q: "extract_search_query s payload = Inr q"
    and o: "truthy payload \<longrightarrow> (\<exists>site. open_site payload = Inr site)" by blast
  show ?thesis
  proof (cases "truthy payload")
    case True
    with o obtain site where "open_site payload = Inr site" by blast
    with q c True show ?thesis by (simp add: process_command_def)
  next
    case False
    with q c show ?thesis by (simp add: process_command_def)
  qed
qed

text \<open>
  C10. The payload that \<open>classify_command\<close> returns is the normalised utterance (with the
  intent \<open>general\<close>), or \<open>None\<close>, or a tuple that is not empty and has no \<open>None\<close> among
  its elements, the last one included: every group of every pattern of the table takes
  part in every match of its pattern. Hence \<open>groups[-1].strip()\<close> in
  \<open>extract_search_query\<close>, \<open>extracted_data[0]\<close> in the dispatcher, and so
  \<open>process_command\<close> as a whole, raise on no output of \<open>classify_command\<close>.
\<close>

theorem C10_payload_shape:
  "(\<exists>intent payload. classify_command SmartCommandProcessor s = (intent, payload)
      \<and> ((intent = ''general'' \<and> payload = PStr (lower (strip s)))
          \<or> payload = PNone
          \<or> (\<exists>g. payload = PTuple g \<and> g \<noteq> [] \<and> None \<notin> set g \<and> last g \<noteq> None)))
   \<and> (\<exists>q. extract_search_query s (snd (classify_command SmartCommandProcessor s)) = Inr q)
   \<and> (truthy (snd (classify_command SmartCommandProcessor s))
        \<longrightarrow> (\<exists>site. open_site (snd (classify_command SmartCommandProcessor s)) = Inr site))
   \<and> (\<exists>h. process_command SmartCommandProcessor s = Inr h)"
proof -
  obtain intent payload where c: "classify_command SmartCommandProcessor s = (intent, payload)"
    by (cases "classify_command SmartCommandProcessor s")
  note sh = classify_shape [OF c]
  have 1: "\<exists>intent payload. classify_command SmartCommandProcessor s = (intent, payload)
      \<and> ((intent = ''general'' \<and> payload = PStr (lower (strip s)))
          \<or> payload = PNone
          \<or> (\<exists>g. payload = PTuple g \<and> g \<noteq> [] \<and> None \<notin> set g \<and> last g \<noteq> None))"
  proof (intro exI conjI)
    show "classify_command SmartCommandProcessor s = (intent, payload)" by (rule c)
    from sh show "(intent = ''general'' \<and> payload = PStr (lower (strip s)))
          \<or> payload = PNone
          \<or> (\<exists>g. payload = PTuple g \<and> g \<noteq> [] \<and> None \<notin> set g \<and> last g \<noteq> None)"
    proof (elim disjE exE conjE)
      fix g
      assume g: "payload = PTuple g" "g \<noteq> []" "None \<notin> set g"
      then have "last g \<in> set g" by simp
      with g have "last g \<noteq> None" by metis
      with g show ?thesis by blast
    qed simp_all
  qed
  from sh have "payload = PStr (lower (strip s)) \<or> payload = PNone
     \<or> (\<exists>g. payload = PTuple g \<and> g \<noteq> [] \<and> None \<notin> set g)" by blast
  from shape_no_raise [OF this, of s] c
  have 2: "(\<exists>q. extract_search_query s (snd (classify_command SmartCommandProcessor s)) = Inr q)
     \<and> (truthy (snd (classify_command SmartCommandProcessor s))
        \<longrightarrow> (\<exists>site. open_site (snd (classify_command SmartCommandProcessor s)) = Inr site))"
    by simp
  show ?thesis
    by (intro conjI) (rule 1, rule 2 [THEN conjunct1], rule 2 [THEN conjunct2],
        rule process_command_no_raise)
qed

theorem C10_payload_shape_witness:
  "truthy (snd (classify_command SmartCommandProcessor ''open github''))
   \<and> (\<exists>site. open_site (snd (classify_command SmartCommandProcessor ''open github'')) = Inr site)"
proof
  show t: "truthy (snd (classify_command SmartCommandProcessor ''open github''))"
    by (simp add: github_classify)
  from mp [OF C10_payload_shape [of "''open github''", THEN conjunct2, THEN conjunct2,
        THEN conjunct1] t]
  show "\<exists>site. open_site (snd (classify_command SmartCommandProcessor ''open github'')) = Inr site" .
qed

section \<open>The search patterns\<close>

lemma plus_greedy_start:
  "plus_greedy P p s k = Some res \<Longrightarrow> s \<noteq> [] \<and> P (hd s)"
  by (cases s) (auto split: if_splits)

lemma plus_greedy_longest:
  "s \<noteq> [] \<Longrightarrow> P (hd s) \<Longrightarrow> k (Some (last (takeWhile P s))) (dropWhile P s) = Some res
   \<Longrightarrow> plus_greedy P p s k = Some res"
proof (induction s arbitrary: p)
  case Nil
  then show ?case by simp
next
  case (Cons x xs)
  from Cons.prems have x: "P x" by simp
  show ?case
  proof (cases "xs \<noteq> [] \<and> P (hd xs)")
    case True
    then have "takeWhile P xs \<noteq> []" by (cases xs) auto
    with Cons.prems x have "k (Some (last (takeWhile P xs))) (dropWhile P xs) = Some res"
      by simp
    with True have "plus_greedy P (Some x) xs k = Some res" by (intro Cons.IH) auto
    with x show ?thesis by simp
  next
    case False
    then have t: "takeWhile P xs = []" and d: "dropWhile P xs = xs" by (cases xs; auto)+
    from False have "plus_greedy P (Some x) xs k = None"
      using plus_greedy_start [of P "Some x" xs k] by (cases "plus_greedy P (Some x) xs k") auto
    with Cons.prems x t d show ?thesis by simp
  qed
qed

lemma take_length_dropWhile:
  "take (length xs - length (dropWhile P xs)) xs = takeWhile P xs"
proof -
  have "length xs = length (takeWhile P xs) + length (dropWhile P xs)"
    by (metis length_append takeWhile_dropWhile_id)
  then have "length xs - length (dropWhile P xs) = length (takeWhile P xs)" by simp
  then show ?thesis by (simp add: takeWhile_eq_take [symmetric])
qed

lemma search_bol_later:
  "tree pat = Seq Bol r \<Longrightarrow> search_from pat (Some c) s = None"
  by (induction s arbitrary: c) auto

lemma search_bol:
  "tree pat = Seq Bol r \<Longrightarrow>
   search_from pat None t =
     rmatch (ignorecase pat) r
       \<lparr>prev = None, rest = t, caps = replicate (ngroups (tree pat)) None\<rparr>
       (\<lambda>st. Some (caps st))"
  by (cases t) (auto simp: search_bol_later split: option.splits)

lemma isspace_newline: "isspace (CHR 0x0A)"
  by (simp add: isspace_def)

lemma strip_nonempty: "\<not> isspace c \<Longrightarrow> strip (c # w) \<noteq> []"
  by (auto simp: strip_def dropWhile_eq_Nil_conv)

lemma lead2_groups:
  assumes m: "re_search (re_compile (lead2 ps) ic) t = Some g"
    and e: "t = [] \<or> \<not> isspace (last t)"
  shows "length g = 2 \<and> (\<exists>c w. g ! 1 = Some (c # w) \<and> \<not> isspace c)"
proof -
  let ?st0 = "\<lparr>prev = None, rest = t, caps = [None, None]\<rparr>"
  let ?k1 = "\<lambda>st. rmatch ic (Seq (Plus Space) (Group 1 (Plus Dot))) st (\<lambda>st. Some (caps st))"
  have "search_from (re_compile (lead2 ps) ic) None t =
      rmatch ic (Seq (Group 0 (alts (map phrase ps))) (Seq (Plus Space) (Group 1 (Plus Dot))))
        \<lparr>prev = None, rest = t, caps = replicate (ngroups (lead2 ps)) None\<rparr>
        (\<lambda>st. Some (caps st))"
    using search_bol [of "re_compile (lead2 ps) ic"
        "Seq (Group 0 (alts (map phrase ps))) (Seq (Plus Space) (Group 1 (Plus Dot)))" t]
    by (simp add: re_compile_def lead2_def)
  with m have "rmatch ic (Group 0 (alts (map phrase ps))) ?st0 ?k1 = Some g"
    by (simp add: re_search_def ngroups_lead2 numeral_2_eq_2)
  from rmatch_invariant [OF this] obtain st1 where k: "?k1 st1 = Some g"
    and l: "length (caps st1) = 2" and u: "\<exists>u. t = u @ rest st1"
    by auto
  define s1 where "s1 = rest st1"
  define k2 where "k2 = (\<lambda>p r. rmatch ic (Group 1 (Plus Dot)) (st1\<lparr>prev := p, rest := r\<rparr>)
      (\<lambda>st. Some (caps st)))"
  from k have pg: "plus_greedy (in_class Space) (prev st1) s1 k2 = Some g"
    by (simp add: s1_def k2_def)
  from plus_greedy_start [OF pg] have n1: "s1 \<noteq> []" and h1: "in_class Space (hd s1)"
    by auto
  define r2 where "r2 = dropWhile (in_class Space) s1"
  have "r2 \<noteq> []"
  proof
    assume "r2 = []"
    then have "\<forall>x\<in>set s1. isspace x" by (simp add: r2_def dropWhile_eq_Nil_conv)
    with n1 have "isspace (last s1)" by simp
    moreover from u n1 have "last t = last s1" "t \<noteq> []" by (auto simp: s1_def)
    ultimately show False using e by simp
  qed
  then obtain c w where r2: "r2 = c # w" by (cases r2) auto
  have "\<not> in_class Space (hd r2)" unfolding r2_def
    using \<open>r2 \<noteq> []\<close> [unfolded r2_def] by (rule hd_dropWhile)
  with r2 have c: "\<not> isspace c" by simp
  with isspace_newline have d: "in_class Dot c" by auto
  have "plus_greedy (in_class Dot) p r2
        (\<lambda>p' r. Some ((caps st1)[1 := Some (take (length r2 - length r) r2)]))
      = Some ((caps st1)[1 := Some (takeWhile (in_class Dot) r2)])" for p
  proof (rule plus_greedy_longest)
    show "r2 \<noteq> []" by fact
    from r2 d show "in_class Dot (hd r2)" by simp
    show "Some ((caps st1)
        [1 := Some (take (length r2 - length (dropWhile (in_class Dot) r2)) r2)])
      = Some ((caps st1)[1 := Some (takeWhile (in_class Dot) r2)])"
      by (simp only: take_length_dropWhile)
  qed
  then have "k2 (Some (last (takeWhile (in_class Space) s1))) r2
      = Some ((caps st1)[1 := Some (takeWhile (in_class Dot) r2)])"
    by (simp add: k2_def)
  from plus_greedy_longest [of s1 "in_class Space" k2 _ "prev st1", OF n1 h1 this [unfolded r2_def]] pg
  have "g = (caps st1)[1 := Some (takeWhile (in_class Dot) r2)]" by (simp add: r2_def)
  with l r2 d c show ?thesis by auto
qed


lemma search_patterns_lead2:
  assumes "(''search'', pats) \<in> set (compiled_patterns SmartCommandProcessor)"
    and "pat \<in> set pats"
  shows "\<exists>ps. pat = re_compile (lead2 ps) True"
proof -
  from assms(1) have "\<forall>pat\<in>set pats. \<exists>ps. pat = re_compile (lead2 ps) True"
    by (auto simp: SmartCommandProcessor_def the_command_patterns_def)
  with assms(2) show ?thesis by blast
qed

lemma classify_search_pattern:
  assumes "classify_command SmartCommandProcessor s = (''search'', payload)"
  shows "\<exists>ps g. re_search (re_compile (lead2 ps) True) (lower (strip s)) = Some g
      \<and> payload = (if g \<noteq> [] then PTuple g else PNone)"
proof -
  from assms have "first_command (compiled_patterns SmartCommandProcessor) (lower (strip s))
      = Some (''search'', payload)"
    by (cases "first_command (compiled_patterns SmartCommandProcessor) (lower (strip s))")
      (simp_all add: classify_command_def)
  from first_command_Some [OF this] obtain pats where
    t: "(''search'', pats) \<in> set (compiled_patterns SmartCommandProcessor)"
    and f: "first_pattern pats (lower (strip s)) = Some payload" by blast
  from first_pattern_Some [OF f] obtain pat g where
    p: "pat \<in> set pats" and r: "re_search pat (lower (strip s)) = Some g"
    and pl: "payload = (if g \<noteq> [] then PTuple g else PNone)" by blast
  from search_patterns_lead2 [OF t p] r pl show ?thesis by blast
qed

lemma search_query_nonempty:
  assumes "classify_command SmartCommandProcessor s = (''search'', payload)"
  shows "\<exists>g q. payload = PTuple g \<and> extract_search_query s payload = Inr q \<and> q \<noteq> []
      \<and> process_command SmartCommandProcessor s = Inr (Handle_search_command q)"
proof -
  from classify_search_pattern [OF assms] obtain ps g where
    r: "re_search (re_compile (lead2 ps) True) (lower (strip s)) = Some g"
    and pl: "payload = (if g \<noteq> [] then PTuple g else PNone)" by blast
  from normalized_ends [of s]
  have "lower (strip s) = [] \<or> \<not> isspace (last (lower (strip s)))" by blast
  from lead2_groups [OF r this] obtain c w where
    l: "length g = 2" and g1: "g ! 1 = Some (c # w)" and c: "\<not> isspace c" by blast
  from l have n: "g \<noteq> []" by auto
  with l g1 have "last g = Some (c # w)" by (simp add: last_conv_nth)
  with n pl have p: "payload = PTuple g"
    and e: "extract_search_query s payload = Inr (strip (c # w))" by simp_all
  from e assms have "process_command SmartCommandProcessor s
      = Inr (Handle_search_command (strip (c # w)))"
    by (simp add: process_command_def)
  with p e strip_nonempty [OF c] show ?thesis by blast
qed

text \<open>
  C6. Whenever \<open>classify_command\<close> returns the intent \<open>search\<close>, its payload is a tuple
  of groups and \<open>extract_search_query\<close> on it returns a string that is not empty, which
  is the query the dispatcher hands to \<open>handle_search_command\<close>. The utterance is
  stripped before matching, so the greedy \<open>\s+\<close> of a search pattern stops before a
  character that is not whitespace, and the last group starts with that character.
\<close>

theorem C6_search_query_nonempty:
  "classify_command SmartCommandProcessor s = (''search'', payload)
   \<longrightarrow> (\<exists>g q. payload = PTuple g \<and> extract_search_query s payload = Inr q \<and> q \<noteq> []
          \<and> process_command SmartCommandProcessor s = Inr (Handle_search_command q))"
  using search_query_nonempty [of s payload] by blast

theorem C6_search_query_nonempty_witness:
  "classify_command SmartCommandProcessor ''search for the eiffel tower''
     = (''search'', PTuple [Some ''search for'', Some ''the eiffel tower''])
   \<and> (\<exists>g q. PTuple [Some ''search for'', Some ''the eiffel tower''] = PTuple g
          \<and> extract_search_query ''search for the eiffel tower''
               (PTuple [Some ''search for'', Some ''the eiffel tower'']) = Inr q
          \<and> q \<noteq> []
          \<and> process_command SmartCommandProcessor ''search for the eiffel tower''
               = Inr (Handle_search_command q))"
  using mp [OF C6_search_query_nonempty [of "''search for the eiffel tower''"
        "PTuple [Some ''search for'', Some ''the eiffel tower'']"] eiffel_classify]
    eiffel_classify
  by (rule_tac conjI)

end
